theory Spec2Isabelle
  imports Complex_Main
begin

section \<open>Values, classes and errors\<close>

text \<open>
  The values a row can hold are the scalars a decoded JSON payload delivers, plus
  \<open>None\<close>. A finite float is represented by its exact rational value; its textual
  form is not modelled and is taken as a parameter wherever text is produced.
\<close>

datatype pyval = VNone | VBool bool | VInt int | VFloat rat | VStr string

text \<open>The classes of these values. A column's declared type is one of them.\<close>

datatype pytype = TStr | TInt | TBool | TFloat | TNoneType

text \<open>
  The failures of the engine. \<open>DuplicateColumn\<close>, \<open>UnknownColumn\<close>, \<open>ArityMismatch\<close>,
  \<open>TypeMismatch\<close>, \<open>DuplicateTable\<close> and \<open>UnknownTable\<close> are the \<open>ValueError\<close>s of the
  source, told apart by their message; \<open>IndexOutOfBounds\<close> is \<open>IndexError\<close>;
  \<open>KeyError\<close> is the failure of \<open>row[name]\<close> and \<open>del row[name]\<close> on a missing key.
\<close>

datatype error =
    DuplicateColumn string
  | UnknownColumn string
  | ArityMismatch
  | TypeMismatch string pytype pytype
  | IndexOutOfBounds
  | KeyError string
  | DuplicateTable string
  | UnknownTable string

fun type_of :: "pyval \<Rightarrow> pytype" where
  "type_of VNone = TNoneType"
| "type_of (VBool _) = TBool"
| "type_of (VInt _) = TInt"
| "type_of (VFloat _) = TFloat"
| "type_of (VStr _) = TStr"

text \<open>The classes a class inherits from, itself first: \<open>bool\<close> is a subclass of \<open>int\<close>.\<close>

fun mro :: "pytype \<Rightarrow> pytype list" where
  "mro TBool = [TBool, TInt]"
| "mro T = [T]"

definition isinstance :: "pyval \<Rightarrow> pytype \<Rightarrow> bool" where
  "isinstance v T = (T \<in> set (mro (type_of v)))"

definition four_tags :: "pytype \<Rightarrow> bool" where
  "four_tags T = (T \<in> {TStr, TInt, TBool, TFloat})"

text \<open>
  Equality of values as \<open>==\<close> decides it: numbers (booleans included) are equal when
  their numeric values are, strings when they are the same string, and \<open>None\<close> only
  equals \<open>None\<close>.
\<close>

fun num_val :: "pyval \<Rightarrow> rat option" where
  "num_val (VBool b) = Some (if b then 1 else 0)"
| "num_val (VInt i) = Some (of_int i)"
| "num_val (VFloat q) = Some q"
| "num_val VNone = None"
| "num_val (VStr _) = None"

fun py_eq :: "pyval \<Rightarrow> pyval \<Rightarrow> bool" where
  "py_eq VNone VNone = True"
| "py_eq (VStr s) (VStr t) = (s = t)"
| "py_eq a b = (case (num_val a, num_val b) of (Some x, Some y) \<Rightarrow> x = y | _ \<Rightarrow> False)"

text \<open>Equality of tuples: the same length and equal components.\<close>

fun tuple_eq :: "pyval list \<Rightarrow> pyval list \<Rightarrow> bool" where
  "tuple_eq [] [] = True"
| "tuple_eq (a # as) (b # bs) = (py_eq a b \<and> tuple_eq as bs)"
| "tuple_eq _ _ = False"

section \<open>DynamicTable\<close>

type_synonym column = "string \<times> pytype"
type_synonym row = "string \<rightharpoonup> pyval"

record table =
  column_info :: "column list"
  rows :: "row list"

definition DynamicTable :: "column list \<Rightarrow> table" where
  "DynamicTable cols = \<lparr>column_info = cols, rows = []\<rparr>"

definition column_names :: "table \<Rightarrow> string list" where
  "column_names t = map fst (column_info t)"

text \<open>
  Every method takes the table and returns the exception it raised, if any, together
  with the table as the call left it: an exception does not undo what the method had
  already written.
\<close>

definition add_column :: "table \<Rightarrow> string \<Rightarrow> pytype \<Rightarrow> error option \<times> table" where
  "add_column t column_name column_type =
     (if column_name \<in> set (column_names t) then (Some (DuplicateColumn column_name), t)
      else (None, \<lparr>column_info = column_info t @ [(column_name, column_type)],
                   rows = map (\<lambda>row. row(column_name \<mapsto> VNone)) (rows t)\<rparr>))"

text \<open>\<open>names.index(x)\<close>: the position of the first occurrence.\<close>

fun list_index :: "'a list \<Rightarrow> 'a \<Rightarrow> nat" where
  "list_index [] x = 0"
| "list_index (y # ys) x = (if y = x then 0 else Suc (list_index ys x))"

text \<open>
  The loop \<open>for row in self.rows: del row[column_name]\<close>. It stops at the first row that
  lacks the key, with the rows before it already changed.
\<close>

fun del_key_rows :: "string \<Rightarrow> row list \<Rightarrow> error option \<times> row list" where
  "del_key_rows c [] = (None, [])"
| "del_key_rows c (r # rs) =
     (case r c of
        None \<Rightarrow> (Some (KeyError c), r # rs)
      | Some _ \<Rightarrow> (case del_key_rows c rs of (e, rs') \<Rightarrow> (e, r(c := None) # rs')))"

definition delete_column :: "table \<Rightarrow> string \<Rightarrow> error option \<times> table" where
  "delete_column t column_name =
     (if column_name \<notin> set (column_names t) then (Some (UnknownColumn column_name), t)
      else
        let index = list_index (column_names t) column_name;
            cols = take index (column_info t) @ drop (Suc index) (column_info t)
        in case del_key_rows column_name (rows t) of
             (e, rs) \<Rightarrow> (e, \<lparr>column_info = cols, rows = rs\<rparr>))"

text \<open>
  The validation loop of \<open>add_row\<close> and \<open>update_row\<close>: it walks the columns, reads the
  value at the same position and stops at the first value that is not an instance of
  the column's type. Reading past the end of the values is an \<open>IndexError\<close>.
\<close>

fun validate :: "column list \<Rightarrow> pyval list \<Rightarrow> error + pyval list" where
  "validate [] values = Inr []"
| "validate ((column_name, column_type) # cols) [] = Inl IndexOutOfBounds"
| "validate ((column_name, column_type) # cols) (v # values) =
     (if \<not> isinstance v column_type
      then Inl (TypeMismatch column_name column_type (type_of v))
      else case validate cols values of
             Inl e \<Rightarrow> Inl e
           | Inr validated \<Rightarrow> Inr (v # validated))"

text \<open>\<open>dict(zip(names, values))\<close>: a later pair overwrites an earlier one of the same key.\<close>

definition dict_zip :: "string list \<Rightarrow> pyval list \<Rightarrow> row" where
  "dict_zip names values = Map.empty(names [\<mapsto>] values)"

definition add_row :: "table \<Rightarrow> pyval list \<Rightarrow> error option \<times> table" where
  "add_row t values =
     (if length values \<noteq> length (column_info t) then (Some ArityMismatch, t)
      else case validate (column_info t) values of
             Inl e \<Rightarrow> (Some e, t)
           | Inr validated_values \<Rightarrow>
               (None, t\<lparr>rows := rows t @ [dict_zip (column_names t) validated_values]\<rparr>))"

definition update_row :: "table \<Rightarrow> int \<Rightarrow> pyval list \<Rightarrow> error option \<times> table" where
  "update_row t row_index values =
     (if row_index < 0 \<or> row_index \<ge> int (length (rows t)) then (Some IndexOutOfBounds, t)
      else if length values \<noteq> length (column_info t) then (Some ArityMismatch, t)
      else case validate (column_info t) values of
             Inl e \<Rightarrow> (Some e, t)
           | Inr validated_values \<Rightarrow>
               (None, t\<lparr>rows := (rows t)[nat row_index :=
                                    dict_zip (column_names t) validated_values]\<rparr>))"

subsection \<open>display_table\<close>

text \<open>
  \<open>sep.join(parts)\<close>. A string is the list of its characters, one \<open>char\<close> for each
  character of the source string, so that \<open>length\<close> is the source's \<open>len\<close>.
\<close>

fun join :: "string \<Rightarrow> string list \<Rightarrow> string" where
  "join sep [] = []"
| "join sep [x] = x"
| "join sep (x # y # ys) = x @ sep @ join sep (y # ys)"

fun digit_chars :: "nat \<Rightarrow> string" where
  "digit_chars n =
     (if n < 10 then [''0123456789'' ! n]
      else digit_chars (n div 10) @ [''0123456789'' ! (n mod 10)])"

declare digit_chars.simps [simp del]

definition int_str :: "int \<Rightarrow> string" where
  "int_str i = (if i < 0 then CHR ''-'' # digit_chars (nat (- i)) else digit_chars (nat i))"

text \<open>\<open>str(value)\<close>; \<open>float_str\<close> is the text of a float.\<close>

fun py_str :: "(rat \<Rightarrow> string) \<Rightarrow> pyval \<Rightarrow> string" where
  "py_str float_str VNone = ''None''"
| "py_str float_str (VBool b) = (if b then ''True'' else ''False'')"
| "py_str float_str (VInt i) = int_str i"
| "py_str float_str (VFloat q) = float_str q"
| "py_str float_str (VStr s) = s"

text \<open>\<open>str(row.get(name, ""))\<close>: the default is used only when the key is missing.\<close>

definition cell_text :: "(rat \<Rightarrow> string) \<Rightarrow> row \<Rightarrow> string \<Rightarrow> string" where
  "cell_text float_str row name =
     (case row name of None \<Rightarrow> '''' | Some v \<Rightarrow> py_str float_str v)"

definition row_line :: "(rat \<Rightarrow> string) \<Rightarrow> column list \<Rightarrow> row \<Rightarrow> string" where
  "row_line float_str cols row = join ''|'' (map (\<lambda>column. cell_text float_str row (fst column)) cols)"

text \<open>
  \<open>display_table\<close> prints; the model takes the lines printed so far and returns them
  with the new lines appended, one \<open>print\<close> after the other.
\<close>

definition print :: "string \<Rightarrow> string list \<Rightarrow> string list" where
  "print line out = out @ [line]"

definition display_table :: "(rat \<Rightarrow> string) \<Rightarrow> table \<Rightarrow> string list \<Rightarrow> string list" where
  "display_table float_str t out =
     (let header = join ''|'' (column_names t);
          out1 = print header out;
          out2 = print (replicate (length header) CHR ''-'') out1
      in fold (\<lambda>row. print (row_line float_str (column_info t) row)) (rows t) out2)"

subsection \<open>remove_duplicates\<close>

text \<open>
  \<open>tuple(row[column] for column, _ in self.column_info)\<close>: the first missing key raises
  \<open>KeyError\<close>.
\<close>

fun row_key :: "column list \<Rightarrow> row \<Rightarrow> error + pyval list" where
  "row_key [] row = Inr []"
| "row_key ((column, _) # cols) row =
     (case row column of
        None \<Rightarrow> Inl (KeyError column)
      | Some v \<Rightarrow> (case row_key cols row of Inl e \<Rightarrow> Inl e | Inr vs \<Rightarrow> Inr (v # vs)))"

text \<open>
  Membership in the set \<open>seen_rows\<close>: an element equal to the key is in the set. Equal
  values have equal hashes, so the hash lookup decides exactly this.
\<close>

definition key_in :: "pyval list \<Rightarrow> pyval list list \<Rightarrow> bool" where
  "key_in k seen = list_ex (tuple_eq k) seen"

text \<open>
  The loop of \<open>remove_duplicates\<close>, over any kind of item with a key function, carrying
  \<open>seen_rows\<close> and \<open>unique_rows\<close>.
\<close>

fun dedup_loop ::
  "('a \<Rightarrow> error + pyval list) \<Rightarrow> pyval list list \<Rightarrow> 'a list \<Rightarrow> 'a list \<Rightarrow> error + 'a list" where
  "dedup_loop key seen_rows unique_rows [] = Inr unique_rows"
| "dedup_loop key seen_rows unique_rows (row # rest) =
     (case key row of
        Inl e \<Rightarrow> Inl e
      | Inr key_values \<Rightarrow>
          if \<not> key_in key_values seen_rows
          then dedup_loop key (key_values # seen_rows) (unique_rows @ [row]) rest
          else dedup_loop key seen_rows unique_rows rest)"

definition remove_duplicates :: "table \<Rightarrow> error option \<times> table" where
  "remove_duplicates t =
     (case dedup_loop (row_key (column_info t)) [] [] (rows t) of
        Inl e \<Rightarrow> (Some e, t)
      | Inr unique_rows \<Rightarrow> (None, t\<lparr>rows := unique_rows\<rparr>))"

section \<open>Database\<close>

record database =
  tables :: "string \<rightharpoonup> table"

definition Database :: database where
  "Database = \<lparr>tables = Map.empty\<rparr>"

definition add_table :: "database \<Rightarrow> string \<Rightarrow> column list \<Rightarrow> error option \<times> database" where
  "add_table db table_name cols =
     (if table_name \<in> dom (tables db) then (Some (DuplicateTable table_name), db)
      else (None, db\<lparr>tables := (tables db)(table_name \<mapsto> DynamicTable cols)\<rparr>))"

definition remove_table :: "database \<Rightarrow> string \<Rightarrow> error option \<times> database" where
  "remove_table db table_name =
     (if table_name \<notin> dom (tables db) then (Some (UnknownTable table_name), db)
      else (None, db\<lparr>tables := (tables db)(table_name := None)\<rparr>))"

section \<open>The route that deletes a row\<close>

text \<open>\<open>del xs[i]\<close>: a negative index counts from the end.\<close>

definition list_del :: "'a list \<Rightarrow> int \<Rightarrow> error + 'a list" where
  "list_del xs i =
     (let n = int (length xs); j = (if i < 0 then i + n else i)
      in if 0 \<le> j \<and> j < n then Inr (take (nat j) xs @ drop (Suc (nat j)) xs)
         else Inl IndexOutOfBounds)"

text \<open>The statement \<open>del dynamic_table.rows[row_index]\<close> on a table.\<close>

definition del_row :: "table \<Rightarrow> int \<Rightarrow> error option \<times> table" where
  "del_row t row_index =
     (case list_del (rows t) row_index of
        Inl e \<Rightarrow> (Some e, t)
      | Inr rs \<Rightarrow> (None, t\<lparr>rows := rs\<rparr>))"

text \<open>
  The route \<open>/tables/<table_name>/rows/<int:row_index>\<close>, method DELETE. The \<open>int\<close>
  converter of the route only matches a sequence of digits, so \<open>row_index\<close> is a
  natural number.
\<close>

definition delete_row :: "database \<Rightarrow> string \<Rightarrow> nat \<Rightarrow> error option \<times> database" where
  "delete_row db table_name row_index =
     (case tables db table_name of
        None \<Rightarrow> (Some (UnknownTable table_name), db)
      | Some dynamic_table \<Rightarrow>
          (case del_row dynamic_table (int row_index) of
             (Some e, _) \<Rightarrow> (Some e, db)
           | (None, t') \<Rightarrow> (None, db\<lparr>tables := (tables db)(table_name \<mapsto> t')\<rparr>)))"

section \<open>Sequences of operations\<close>

datatype op =
    AddColumn string pytype
  | DeleteColumn string
  | AddRow "pyval list"
  | UpdateRow int "pyval list"
  | DeleteRow nat
  | RemoveDuplicates

fun apply_op :: "op \<Rightarrow> table \<Rightarrow> error option \<times> table" where
  "apply_op (AddColumn c T) t = add_column t c T"
| "apply_op (DeleteColumn c) t = delete_column t c"
| "apply_op (AddRow vs) t = add_row t vs"
| "apply_op (UpdateRow i vs) t = update_row t i vs"
| "apply_op (DeleteRow i) t = del_row t (int i)"
| "apply_op RemoveDuplicates t = remove_duplicates t"

text \<open>The table after a sequence of calls, each one carried out on what the last left.\<close>

definition run :: "op list \<Rightarrow> table \<Rightarrow> table" where
  "run ops t = fold (\<lambda>op t. snd (apply_op op t)) ops t"

section \<open>Invariants\<close>

definition lockstep :: "table \<Rightarrow> bool" where
  "lockstep t = list_all (\<lambda>row. dom row = set (column_names t)) (rows t)"

definition well_formed :: "table \<Rightarrow> bool" where
  "well_formed t = (distinct (column_names t) \<and> lockstep t)"

text \<open>
  The specification's notion of duplicate rows: two rows are duplicates when, for every
  column of the schema in order, both hold a value and the two values are the same value
  of the same kind. A boolean is not an integer: \<open>True\<close> and \<open>1\<close> are different values.
\<close>

definition duplicates :: "column list \<Rightarrow> row \<Rightarrow> row \<Rightarrow> bool" where
  "duplicates cols r r' =
     list_all (\<lambda>column. case (r (fst column), r' (fst column)) of
                          (Some v, Some w) \<Rightarrow> v = w
                        | _ \<Rightarrow> False) cols"

text \<open>
  What \<open>remove_duplicates\<close> compares: the key tuples of two rows, with \<open>==\<close>. Under \<open>==\<close>
  numbers are equal when their numeric values are, so \<open>True\<close> equals \<open>1\<close> and \<open>False\<close>
  equals \<open>0\<close>.
\<close>

definition same_key :: "column list \<Rightarrow> row \<Rightarrow> row \<Rightarrow> bool" where
  "same_key cols r r' =
     (case (row_key cols r, row_key cols r') of
        (Inr k, Inr k') \<Rightarrow> tuple_eq k k'
      | _ \<Rightarrow> False)"

section \<open>Where None may stand\<close>

text \<open>
  The columns that are typed with one of \<open>str\<close>, \<open>int\<close>, \<open>bool\<close> and \<open>float\<close>, and the
  operations that add only such columns.
\<close>

definition all_four_tags :: "column list \<Rightarrow> bool" where
  "all_four_tags cols = list_all (\<lambda>column. four_tags (snd column)) cols"

fun op_four_tags :: "op \<Rightarrow> bool" where
  "op_four_tags (AddColumn c T) = four_tags T"
| "op_four_tags _ = True"

text \<open>
  A history beside the table, which the program does not keep: for every row, the names
  of the columns that a successful \<open>add_column\<close> has added since \<open>add_row\<close> or
  \<open>update_row\<close> wrote the row, and that have not been deleted since. A call that fails
  leaves the history as it is; \<open>remove_duplicates\<close> keeps the entries of the rows it
  keeps, found by running its loop on the rows paired with their entries.
\<close>

fun track :: "op \<Rightarrow> table \<times> string set list \<Rightarrow> table \<times> string set list" where
  "track op (t, late) =
     (case apply_op op t of
        (Some e, t') \<Rightarrow> (t', late)
      | (None, t') \<Rightarrow>
          (t', case op of
                 AddColumn c T \<Rightarrow> map (insert c) late
               | DeleteColumn c \<Rightarrow> map (\<lambda>S. S - {c}) late
               | AddRow vs \<Rightarrow> late @ [{}]
               | UpdateRow i vs \<Rightarrow> late[nat i := {}]
               | DeleteRow i \<Rightarrow> take i late @ drop (Suc i) late
               | RemoveDuplicates \<Rightarrow>
                   (case dedup_loop (\<lambda>p. row_key (column_info t) (fst p)) [] []
                           (zip (rows t) late) of
                      Inl e \<Rightarrow> late
                    | Inr kept \<Rightarrow> map snd kept)))"

declare track.simps [simp del]

definition track_run :: "op list \<Rightarrow> table \<times> string set list \<Rightarrow> table \<times> string set list" where
  "track_run ops s = fold track ops s"

text \<open>A row holds \<open>None\<close> only under the columns of the given set.\<close>

definition none_allowed :: "row \<Rightarrow> string set \<Rightarrow> bool" where
  "none_allowed r late = (\<forall>c. r c = Some VNone \<longrightarrow> c \<in> late)"

text \<open>
  What the proof carries along a sequence of operations: the columns have the four
  types, and every row holds \<open>None\<close> only under the columns of its entry in the history.
\<close>

definition tracked_ok :: "table \<times> string set list \<Rightarrow> bool" where
  "tracked_ok s =
     (all_four_tags (column_info (fst s)) \<and>
      list_all2 none_allowed (rows (fst s)) (snd s))"

section \<open>Auxiliary facts\<close>

subsection \<open>Validation\<close>

lemma validate_all_instances:
  "length vs = length cols \<Longrightarrow>
   \<forall>j < length cols. isinstance (vs ! j) (snd (cols ! j)) \<Longrightarrow> validate cols vs = Inr vs"
proof (induction cols vs rule: validate.induct)
  case (1 "values")
  then show ?case by simp
next
  case (2 column_name column_type cols)
  then show ?case by simp
next
  case (3 column_name column_type cols v "values")
  from "3.prems"(2) have h0: "isinstance v column_type" by fastforce
  have "\<forall>j < length cols. isinstance (values ! j) (snd (cols ! j))"
  proof (intro allI impI)
    fix j assume "j < length cols"
    then have "Suc j < length ((column_name, column_type) # cols)" by simp
    with "3.prems"(2)
    have "isinstance ((v # values) ! Suc j) (snd (((column_name, column_type) # cols) ! Suc j))"
      by blast
    then show "isinstance (values ! j) (snd (cols ! j))" by simp
  qed
  with 3 h0 show ?case by simp
qed

lemma isinstance_bool_int: "isinstance (VBool b) TInt"
  by (simp add: isinstance_def)

subsection \<open>Printing\<close>

lemma fold_print: "fold (\<lambda>row. print (f row)) rs out = out @ map f rs"
  by (induction rs arbitrary: out) (simp_all add: print_def)

subsection \<open>Deleting from a list\<close>

lemma list_del_nat:
  "list_del xs (int i) =
     (if i < length xs then Inr (take i xs @ drop (Suc i) xs) else Inl IndexOutOfBounds)"
  by (simp add: list_del_def Let_def)

subsection \<open>Equality of values and keys\<close>

lemma py_eq_sym: "py_eq a b \<Longrightarrow> py_eq b a"
  by (cases a; cases b) (auto split: if_splits)

lemma py_eq_trans: "py_eq a b \<Longrightarrow> py_eq b c \<Longrightarrow> py_eq a c"
  by (cases a; cases b; cases c) (auto split: if_splits)

lemma tuple_eq_sym: "tuple_eq k k' \<Longrightarrow> tuple_eq k' k"
  by (induction k k' rule: tuple_eq.induct) (auto dest: py_eq_sym)

lemma tuple_eq_trans: "tuple_eq k k' \<Longrightarrow> tuple_eq k' k'' \<Longrightarrow> tuple_eq k k''"
proof (induction k k' arbitrary: k'' rule: tuple_eq.induct)
  case (2 a as b bs)
  then obtain c cs where k'': "k'' = c # cs" by (cases k'') auto
  with 2 show ?case by (auto dest: py_eq_trans)
qed simp_all

lemma key_in_Cons: "key_in k (k' # seen) \<longleftrightarrow> tuple_eq k k' \<or> key_in k seen"
  by (simp add: key_in_def)

lemma key_in_trans: "tuple_eq k k' \<Longrightarrow> key_in k' seen \<Longrightarrow> key_in k seen"
  by (auto simp: key_in_def list_ex_iff dest: tuple_eq_trans)

lemma row_key_total: "set (map fst cols) \<subseteq> dom r \<Longrightarrow> \<exists>k. row_key cols r = Inr k"
  by (induction cols r rule: row_key.induct) (auto split: option.splits sum.splits)

lemma same_key_row_keys:
  "row_key cols r = Inr k \<Longrightarrow> row_key cols r' = Inr k' \<Longrightarrow> same_key cols r r' = tuple_eq k k'"
  by (simp add: same_key_def)

subsection \<open>The loop of remove_duplicates\<close>

text \<open>The rows collected so far are a prefix of the result and play no other part.\<close>

lemma dedup_loop_acc:
  "dedup_loop key seen unique rs =
     (case dedup_loop key seen [] rs of Inl e \<Rightarrow> Inl e | Inr ks \<Rightarrow> Inr (unique @ ks))"
proof (induction rs arbitrary: seen unique)
  case Nil
  then show ?case by simp
next
  case (Cons r rs)
  show ?case
  proof (cases "key r")
    case (Inl e)
    then show ?thesis by simp
  next
    case (Inr k)
    show ?thesis
    proof (cases "key_in k seen")
      case True
      with Inr Cons.IH [of seen unique] show ?thesis by simp
    next
      case False
      have a: "dedup_loop key (k # seen) (unique @ [r]) rs =
                 (case dedup_loop key (k # seen) [] rs of Inl e \<Rightarrow> Inl e
                    | Inr ks \<Rightarrow> Inr ((unique @ [r]) @ ks))"
        by (rule Cons.IH)
      have b: "dedup_loop key (k # seen) [r] rs =
                 (case dedup_loop key (k # seen) [] rs of Inl e \<Rightarrow> Inl e
                    | Inr ks \<Rightarrow> Inr ([r] @ ks))"
        by (rule Cons.IH)
      from Inr False a b show ?thesis by (simp split: sum.splits)
    qed
  qed
qed

lemma dedup_loop_idem:
  "dedup_loop key seen [] rs = Inr ks \<Longrightarrow> dedup_loop key seen [] ks = Inr ks"
proof (induction rs arbitrary: seen ks)
  case Nil
  then show ?case by simp
next
  case (Cons r rs)
  from Cons.prems obtain k where k: "key r = Inr k"
    by (cases "key r") auto
  show ?case
  proof (cases "key_in k seen")
    case True
    with k Cons.prems have "dedup_loop key seen [] rs = Inr ks" by simp
    then show ?thesis by (rule Cons.IH)
  next
    case False
    with k Cons.prems have "dedup_loop key (k # seen) [r] rs = Inr ks" by simp
    then obtain ks' where ks': "dedup_loop key (k # seen) [] rs = Inr ks'" and ks: "ks = r # ks'"
      by (subst (asm) dedup_loop_acc) (auto split: sum.splits)
    from ks' have "dedup_loop key (k # seen) [] ks' = Inr ks'" by (rule Cons.IH)
    then have "dedup_loop key (k # seen) [r] ks' = Inr (r # ks')"
      by (subst dedup_loop_acc) simp
    with k False ks show ?thesis by simp
  qed
qed

lemma upt_Suc_shift: "[0..<Suc n] = 0 # map Suc [0..<n]"
  by (simp add: upt_conv_Cons map_Suc_upt del: upt_Suc)

lemma all_less_Suc_shift: "(\<forall>i<Suc j. P i) \<longleftrightarrow> (P 0 \<and> (\<forall>i<j. P (Suc i)))"
  by (metis less_Suc_eq_0_disj Suc_less_eq zero_less_Suc)

text \<open>
  When every row has a key, the loop keeps the rows at exactly those positions whose key
  is neither in the set it started with nor equal to the key of an earlier row.
\<close>

lemma dedup_loop_first_occurrences:
  assumes "\<forall>r \<in> set rs. \<exists>k. key r = Inr k"
  shows "dedup_loop key seen [] rs =
           Inr (map ((!) rs)
                  (filter (\<lambda>j. \<not> key_in (projr (key (rs ! j))) seen \<and>
                               (\<forall>i<j. \<not> tuple_eq (projr (key (rs ! i))) (projr (key (rs ! j)))))
                     [0..<length rs]))"
  using assms
proof (induction rs arbitrary: seen)
  case Nil
  then show ?case by simp
next
  case (Cons r rs)
  from Cons.prems obtain k where k: "key r = Inr k" by auto
  from Cons.prems have rest: "\<forall>r \<in> set rs. \<exists>k. key r = Inr k" by simp
  let ?kf = "\<lambda>x. projr (key x)"
  let ?P = "\<lambda>sn xs j. \<not> key_in (?kf (xs ! j)) sn \<and>
                       (\<forall>i<j. \<not> tuple_eq (?kf (xs ! i)) (?kf (xs ! j)))"
  have P0: "?P seen (r # rs) 0 \<longleftrightarrow> \<not> key_in k seen" using k by simp
  have PS: "?P seen (r # rs) (Suc j) \<longleftrightarrow>
              \<not> key_in (?kf (rs ! j)) seen \<and> \<not> tuple_eq k (?kf (rs ! j)) \<and>
              (\<forall>i<j. \<not> tuple_eq (?kf (rs ! i)) (?kf (rs ! j)))" for j
    using k by (simp add: all_less_Suc_shift)
  have shape: "map ((!) (r # rs)) (filter (?P seen (r # rs)) [0..<length (r # rs)]) =
                 (if \<not> key_in k seen then [r] else []) @
                 map ((!) rs) (filter (\<lambda>j. ?P seen (r # rs) (Suc j)) [0..<length rs])"
    using P0 by (simp add: upt_Suc_shift filter_map comp_def del: upt_Suc)
  show ?case
  proof (cases "key_in k seen")
    case True
    have "filter (\<lambda>j. ?P seen (r # rs) (Suc j)) [0..<length rs] =
          filter (?P seen rs) [0..<length rs]"
    proof (rule filter_cong [OF refl])
      fix j
      have "\<not> key_in (?kf (rs ! j)) seen \<Longrightarrow> \<not> tuple_eq k (?kf (rs ! j))"
        using True key_in_trans tuple_eq_sym by blast
      then show "?P seen (r # rs) (Suc j) = ?P seen rs j"
        unfolding PS by blast
    qed
    with shape True
    have "map ((!) (r # rs)) (filter (?P seen (r # rs)) [0..<length (r # rs)]) =
          map ((!) rs) (filter (?P seen rs) [0..<length rs])" by simp
    moreover have "dedup_loop key seen [] (r # rs) = dedup_loop key seen [] rs"
      using k True by simp
    ultimately show ?thesis using Cons.IH [OF rest, of seen] by simp
  next
    case False
    have "filter (\<lambda>j. ?P seen (r # rs) (Suc j)) [0..<length rs] =
          filter (?P (k # seen) rs) [0..<length rs]"
    proof (rule filter_cong [OF refl])
      fix j
      have "tuple_eq (?kf (rs ! j)) k \<longleftrightarrow> tuple_eq k (?kf (rs ! j))"
        using tuple_eq_sym by blast
      then show "?P seen (r # rs) (Suc j) = ?P (k # seen) rs j"
        unfolding PS key_in_Cons by blast
    qed
    with shape False
    have "map ((!) (r # rs)) (filter (?P seen (r # rs)) [0..<length (r # rs)]) =
          r # map ((!) rs) (filter (?P (k # seen) rs) [0..<length rs])" by simp
    moreover have "dedup_loop key seen [] (r # rs) =
                     (case dedup_loop key (k # seen) [] rs of
                        Inl e \<Rightarrow> Inl e | Inr ks \<Rightarrow> Inr (r # ks))"
      using k False
      by (simp add: dedup_loop_acc [of key "k # seen" "[r]"] split: sum.splits)
    ultimately show ?thesis using Cons.IH [OF rest, of "k # seen"] by simp
  qed
qed

lemma lockstep_rows: "lockstep t \<Longrightarrow> r \<in> set (rows t) \<Longrightarrow> dom r = set (column_names t)"
  by (simp add: lockstep_def list_all_iff)

lemma remove_duplicates_first_occ:
  assumes "\<forall>r \<in> set (rows t). set (column_names t) \<subseteq> dom r"
  shows "remove_duplicates t =
           (None, t\<lparr>rows := map ((!) (rows t))
                     (filter (\<lambda>j. \<forall>i<j. \<not> same_key (column_info t) (rows t ! i) (rows t ! j))
                        [0..<length (rows t)])\<rparr>)"
proof -
  let ?key = "row_key (column_info t)"
  have total: "\<exists>k. ?key r = Inr k" if "r \<in> set (rows t)" for r
    using assms that row_key_total [of "column_info t" r]
    by (simp add: column_names_def)
  have dup: "tuple_eq (projr (?key (rows t ! i))) (projr (?key (rows t ! j))) =
             same_key (column_info t) (rows t ! i) (rows t ! j)"
    if "i < length (rows t)" "j < length (rows t)" for i j
  proof -
    from that total obtain k k' where "?key (rows t ! i) = Inr k" "?key (rows t ! j) = Inr k'"
      by (meson nth_mem)
    then show ?thesis by (simp add: same_key_row_keys)
  qed
  have "filter (\<lambda>j. \<not> key_in (projr (?key (rows t ! j))) [] \<and>
                     (\<forall>i<j. \<not> tuple_eq (projr (?key (rows t ! i))) (projr (?key (rows t ! j)))))
               [0..<length (rows t)] =
        filter (\<lambda>j. \<forall>i<j. \<not> same_key (column_info t) (rows t ! i) (rows t ! j))
               [0..<length (rows t)]"
  proof (rule filter_cong [OF refl])
    fix j assume "j \<in> set [0..<length (rows t)]"
    then have j: "j < length (rows t)" by simp
    then have "\<And>i. i < j \<Longrightarrow> i < length (rows t)" by simp
    with j dup
    show "(\<not> key_in (projr (?key (rows t ! j))) [] \<and>
           (\<forall>i<j. \<not> tuple_eq (projr (?key (rows t ! i))) (projr (?key (rows t ! j))))) =
          (\<forall>i<j. \<not> same_key (column_info t) (rows t ! i) (rows t ! j))"
      by (simp add: key_in_def)
  qed
  moreover have "\<forall>r \<in> set (rows t). \<exists>k. ?key r = Inr k" using total by blast
  ultimately have "dedup_loop ?key [] [] (rows t) =
      Inr (map ((!) (rows t))
             (filter (\<lambda>j. \<forall>i<j. \<not> same_key (column_info t) (rows t ! i) (rows t ! j))
                [0..<length (rows t)]))"
    using dedup_loop_first_occurrences [of "rows t" ?key "[]"] by simp
  then show ?thesis by (simp add: remove_duplicates_def)
qed

subsection \<open>Every method keeps a well-formed table well-formed\<close>

lemma list_index_remove1:
  "x \<in> set xs \<Longrightarrow> take (list_index xs x) xs @ drop (Suc (list_index xs x)) xs = remove1 x xs"
  by (induction xs) auto

lemma list_index_map_fst:
  "c \<in> set (map fst cols) \<Longrightarrow>
   map fst (take (list_index (map fst cols) c) cols @ drop (Suc (list_index (map fst cols) c)) cols)
     = remove1 c (map fst cols)"
  using list_index_remove1 [of c "map fst cols"] by (simp add: take_map drop_map)

lemma list_index_append_last: "x \<notin> set xs \<Longrightarrow> list_index (xs @ [x]) x = length xs"
  by (induction xs) auto

lemma del_key_rows_ok:
  "\<forall>r \<in> set rs. c \<in> dom r \<Longrightarrow> del_key_rows c rs = (None, map (\<lambda>r. r(c := None)) rs)"
  by (induction rs) (auto split: option.splits)

lemma dom_dict_zip: "length vs = length names \<Longrightarrow> dom (dict_zip names vs) = set names"
  by (simp add: dict_zip_def)

lemma validate_Inr:
  "length vs = length cols \<Longrightarrow> validate cols vs = Inr out \<Longrightarrow> out = vs"
  by (induction cols vs arbitrary: out rule: validate.induct) (auto split: if_splits sum.splits)

lemma dedup_loop_subset:
  "dedup_loop key seen unique rs = Inr ks \<Longrightarrow> set ks \<subseteq> set unique \<union> set rs"
proof (induction rs arbitrary: seen unique)
  case Nil
  then show ?case by simp
next
  case (Cons r rs)
  then show ?case by (fastforce split: sum.splits if_splits)
qed

lemma well_formed_add_column: "well_formed t \<Longrightarrow> well_formed (snd (add_column t c T))"
  by (auto simp: well_formed_def lockstep_def add_column_def column_names_def list_all_iff)

lemma well_formed_delete_column:
  assumes "well_formed t"
  shows "well_formed (snd (delete_column t c))"
proof (cases "c \<in> set (column_names t)")
  case False
  with assms show ?thesis by (simp add: delete_column_def)
next
  case True
  from assms have d: "distinct (map fst (column_info t))"
    and l: "\<forall>r \<in> set (rows t). dom r = set (map fst (column_info t))"
    by (simp_all add: well_formed_def lockstep_def column_names_def list_all_iff)
  from True l have "\<forall>r \<in> set (rows t). c \<in> dom r" by (simp add: column_names_def)
  then have del: "del_key_rows c (rows t) = (None, map (\<lambda>r. r(c := None)) (rows t))"
    by (rule del_key_rows_ok)
  let ?i = "list_index (column_names t) c"
  let ?cols = "take ?i (column_info t) @ drop (Suc ?i) (column_info t)"
  have res: "snd (delete_column t c) =
               \<lparr>column_info = ?cols, rows = map (\<lambda>r. r(c := None)) (rows t)\<rparr>"
    using True del by (simp add: delete_column_def Let_def)
  have names: "map fst ?cols = remove1 c (map fst (column_info t))"
    using True list_index_map_fst [of c "column_info t"] by (simp add: column_names_def)
  have "distinct (map fst ?cols)" using d names by simp
  moreover have "\<forall>r \<in> set (rows t). dom (r(c := None)) = set (map fst ?cols)"
    using l d names by auto
  ultimately show ?thesis
    unfolding res by (simp add: well_formed_def lockstep_def column_names_def list_all_iff)
qed

lemma well_formed_rows:
  assumes "well_formed t" and "column_info t' = column_info t"
    and "\<forall>r \<in> set (rows t'). r \<in> set (rows t) \<or> dom r = set (column_names t)"
  shows "well_formed t'"
proof -
  from assms(1) have d: "distinct (column_names t)"
    by (simp add: well_formed_def)
  from assms(1) have l: "\<forall>r \<in> set (rows t). dom r = set (column_names t)"
    by (simp add: well_formed_def lockstep_def list_all_iff)
  from assms(2) have n: "column_names t' = column_names t" by (simp add: column_names_def)
  have "dom r = set (column_names t)" if "r \<in> set (rows t')" for r
  proof -
    from assms(3) that have "r \<in> set (rows t) \<or> dom r = set (column_names t)" ..
    then show ?thesis
    proof
      assume "r \<in> set (rows t)"
      with l show ?thesis ..
    qed
  qed
  then have "\<forall>r \<in> set (rows t'). dom r = set (column_names t')" using n by simp
  with d n show ?thesis by (simp add: well_formed_def lockstep_def list_all_iff)
qed

lemma well_formed_add_row:
  assumes "well_formed t"
  shows "well_formed (snd (add_row t vs))"
proof (cases "fst (add_row t vs)")
  case (Some e)
  then have "snd (add_row t vs) = t"
    by (auto simp: add_row_def split: if_splits sum.splits)
  with assms show ?thesis by simp
next
  case None
  then have len: "length vs = length (column_info t)"
    by (auto simp: add_row_def split: if_splits)
  with None obtain out where out: "validate (column_info t) vs = Inr out"
    by (auto simp: add_row_def split: sum.splits)
  with len have "out = vs" by (rule validate_Inr)
  with out len have res: "snd (add_row t vs) = t\<lparr>rows := rows t @ [dict_zip (column_names t) vs]\<rparr>"
    by (simp add: add_row_def)
  have "dom (dict_zip (column_names t) vs) = set (column_names t)"
    using len by (simp add: dom_dict_zip column_names_def)
  then show ?thesis
    unfolding res by (intro well_formed_rows [OF assms]) auto
qed

lemma well_formed_update_row:
  assumes "well_formed t"
  shows "well_formed (snd (update_row t i vs))"
proof (cases "fst (update_row t i vs)")
  case (Some e)
  then have "snd (update_row t i vs) = t"
    by (auto simp: update_row_def split: if_splits sum.splits)
  with assms show ?thesis by simp
next
  case None
  then have len: "length vs = length (column_info t)"
    by (auto simp: update_row_def split: if_splits)
  with None obtain out where out: "validate (column_info t) vs = Inr out"
    by (auto simp: update_row_def split: sum.splits if_splits)
  with len have "out = vs" by (rule validate_Inr)
  with out len None
  have res: "snd (update_row t i vs) =
               t\<lparr>rows := (rows t)[nat i := dict_zip (column_names t) vs]\<rparr>"
    by (auto simp: update_row_def split: if_splits)
  have "dom (dict_zip (column_names t) vs) = set (column_names t)"
    using len by (simp add: dom_dict_zip column_names_def)
  moreover have "set ((rows t)[nat i := dict_zip (column_names t) vs])
                   \<subseteq> insert (dict_zip (column_names t) vs) (set (rows t))"
    by (rule set_update_subset_insert)
  ultimately show ?thesis
    unfolding res by (intro well_formed_rows [OF assms]) auto
qed

lemma well_formed_del_row:
  assumes "well_formed t"
  shows "well_formed (snd (del_row t i))"
proof (cases "list_del (rows t) i")
  case (Inl e)
  with assms show ?thesis by (simp add: del_row_def)
next
  case (Inr rs)
  then have "set rs \<subseteq> set (rows t)"
    by (auto simp: list_del_def Let_def split: if_splits dest: in_set_takeD in_set_dropD)
  moreover from Inr have "snd (del_row t i) = t\<lparr>rows := rs\<rparr>" by (simp add: del_row_def)
  ultimately show ?thesis
    by (intro well_formed_rows [OF assms]) auto
qed

lemma well_formed_remove_duplicates:
  assumes "well_formed t"
  shows "well_formed (snd (remove_duplicates t))"
proof (cases "dedup_loop (row_key (column_info t)) [] [] (rows t)")
  case (Inl e)
  with assms show ?thesis by (simp add: remove_duplicates_def)
next
  case (Inr ks)
  then have "set ks \<subseteq> set (rows t)" using dedup_loop_subset by fastforce
  moreover from Inr have "snd (remove_duplicates t) = t\<lparr>rows := ks\<rparr>"
    by (simp add: remove_duplicates_def)
  ultimately show ?thesis
    by (intro well_formed_rows [OF assms]) auto
qed

lemma well_formed_apply_op: "well_formed t \<Longrightarrow> well_formed (snd (apply_op op t))"
  by (cases op)
     (simp_all add: well_formed_add_column well_formed_delete_column well_formed_add_row
        well_formed_update_row well_formed_del_row well_formed_remove_duplicates)

lemma well_formed_run: "well_formed t \<Longrightarrow> well_formed (run ops t)"
  by (induction ops arbitrary: t) (simp_all add: run_def well_formed_apply_op)

subsection \<open>None and the history of added columns\<close>

lemma isinstance_None: "isinstance VNone T \<longleftrightarrow> T = TNoneType"
  by (auto simp: isinstance_def)

lemma four_tags_not_None: "four_tags T \<Longrightarrow> \<not> isinstance VNone T"
  by (auto simp: isinstance_None four_tags_def)

text \<open>The first value the loop rejects stands at or before any position holding None.\<close>

lemma validate_rejects_None:
  "all_four_tags cols \<Longrightarrow> length vs = length cols \<Longrightarrow> i < length vs \<Longrightarrow> vs ! i = VNone \<Longrightarrow>
   \<exists>j\<le>i. validate cols vs = Inl (TypeMismatch (fst (cols ! j)) (snd (cols ! j)) (type_of (vs ! j)))"
proof (induction cols vs arbitrary: i rule: validate.induct)
  case (1 "values")
  then show ?case by simp
next
  case (2 column_name column_type cols)
  then show ?case by simp
next
  case (3 column_name column_type cols v "values")
  show ?case
  proof (cases "isinstance v column_type")
    case False
    then have "validate ((column_name, column_type) # cols) (v # values) =
                 Inl (TypeMismatch (fst (((column_name, column_type) # cols) ! 0))
                        (snd (((column_name, column_type) # cols) ! 0)) (type_of ((v # values) ! 0)))"
      by simp
    then show ?thesis by blast
  next
    case True
    from "3.prems"(1) have ft: "four_tags column_type" and rest: "all_four_tags cols"
      by (simp_all add: all_four_tags_def)
    from True ft have "v \<noteq> VNone" using four_tags_not_None by blast
    with "3.prems"(4) obtain i' where i': "i = Suc i'" by (cases i) auto
    with "3.prems" have "length values = length cols" "i' < length values" "values ! i' = VNone"
      by simp_all
    from "3.IH" [OF _ rest this] True
    obtain j where j: "j \<le> i'"
      "validate cols values = Inl (TypeMismatch (fst (cols ! j)) (snd (cols ! j)) (type_of (values ! j)))"
      by auto
    from j(2) True
    have "validate ((column_name, column_type) # cols) (v # values) =
            Inl (TypeMismatch (fst (((column_name, column_type) # cols) ! Suc j))
                   (snd (((column_name, column_type) # cols) ! Suc j))
                   (type_of ((v # values) ! Suc j)))"
      by simp
    moreover from j(1) i' have "Suc j \<le> i" by simp
    ultimately show ?thesis by blast
  qed
qed

lemma validate_no_None:
  assumes "all_four_tags cols" and "length vs = length cols" and "validate cols vs = Inr out"
  shows "VNone \<notin> set vs"
proof
  assume "VNone \<in> set vs"
  then obtain i where "i < length vs" "vs ! i = VNone" by (auto simp: in_set_conv_nth)
  from validate_rejects_None [OF assms(1,2) this] assms(3) show False by auto
qed

lemma dict_zip_values: "dict_zip names vs c = Some v \<Longrightarrow> v \<in> set vs"
proof -
  assume "dict_zip names vs c = Some v"
  then have "map_of (rev (zip names vs)) c = Some v"
    by (simp add: dict_zip_def map_upds_def)
  then have "(c, v) \<in> set (rev (zip names vs))" by (rule map_of_SomeD)
  then show ?thesis by (auto dest: set_zip_rightD)
qed

lemma none_allowed_dict_zip: "VNone \<notin> set vs \<Longrightarrow> none_allowed (dict_zip names vs) {}"
  using dict_zip_values by (fastforce simp: none_allowed_def)

lemma none_allowed_add: "none_allowed r S \<Longrightarrow> none_allowed (r(c \<mapsto> VNone)) (insert c S)"
  by (simp add: none_allowed_def)

lemma none_allowed_del: "none_allowed r S \<Longrightarrow> none_allowed (r(c := None)) (S - {c})"
  by (simp add: none_allowed_def)

text \<open>The loop on rows paired with anything else keeps the pairs of the rows it keeps.\<close>

lemma dedup_loop_paired:
  "dedup_loop key seen (map fst unique) (map fst zs) =
     (case dedup_loop (\<lambda>p. key (fst p)) seen unique zs of
        Inl e \<Rightarrow> Inl e | Inr kept \<Rightarrow> Inr (map fst kept))"
proof (induction zs arbitrary: seen unique)
  case Nil
  then show ?case by simp
next
  case (Cons z zs)
  show ?case
  proof (cases "key (fst z)")
    case (Inl e)
    then show ?thesis by simp
  next
    case (Inr k)
    show ?thesis
    proof (cases "key_in k seen")
      case True
      with Inr Cons.IH [of seen unique] show ?thesis by simp
    next
      case False
      with Inr Cons.IH [of "k # seen" "unique @ [z]"] show ?thesis by simp
    qed
  qed
qed

lemma list_all2_kept:
  assumes "list_all2 P xs ys" and "set kept \<subseteq> set (zip xs ys)"
  shows "list_all2 P (map fst kept) (map snd kept)"
proof -
  from assms(1) have "\<forall>(x, y) \<in> set (zip xs ys). P x y" by (simp add: list_all2_iff)
  with assms(2) have "\<forall>p \<in> set kept. P (fst p) (snd p)" by fastforce
  then show ?thesis by (simp add: list_all2_map1 list_all2_map2 list_all2_same)
qed

lemma tracked_okI:
  "all_four_tags (column_info t) \<Longrightarrow> list_all2 none_allowed (rows t) late \<Longrightarrow>
   tracked_ok (t, late)"
  by (simp add: tracked_ok_def)

lemma none_allowed_del_same: "none_allowed r S \<Longrightarrow> none_allowed (r(c := None)) S"
  by (simp add: none_allowed_def)

text \<open>
  However the loop over the rows of \<open>delete_column\<close> ends, every row is left as it was
  or without the key, so no row gains a \<open>None\<close>.
\<close>

lemma del_key_rows_none_allowed:
  "del_key_rows c rs = (e, rs') \<Longrightarrow> list_all2 none_allowed rs late \<Longrightarrow>
   list_all2 none_allowed rs' late"
proof (induction rs arbitrary: e rs' late)
  case Nil
  then show ?case by simp
next
  case (Cons r rs)
  from Cons.prems(2) obtain S late' where late: "late = S # late'"
    and rS: "none_allowed r S" and rest: "list_all2 none_allowed rs late'"
    by (auto simp: list_all2_Cons1)
  show ?case
  proof (cases "r c")
    case None
    with Cons.prems have "rs' = r # rs" by simp
    with Cons.prems(2) show ?thesis by simp
  next
    case (Some v)
    obtain e1 rs1 where rec: "del_key_rows c rs = (e1, rs1)" by (cases "del_key_rows c rs")
    with Some Cons.prems(1) have rs': "rs' = r(c := None) # rs1" by simp
    from rec rest have "list_all2 none_allowed rs1 late'" by (rule Cons.IH)
    moreover from rS have "none_allowed (r(c := None)) S" by (rule none_allowed_del_same)
    ultimately show ?thesis unfolding rs' late by simp
  qed
qed

lemma del_key_rows_success:
  "del_key_rows c rs = (None, rs') \<Longrightarrow> rs' = map (\<lambda>r. r(c := None)) rs"
  by (induction rs arbitrary: rs') (auto split: option.splits prod.splits)

lemma failure_unchanged:
  assumes "fst (apply_op op t) = Some e" and "\<forall>c. op \<noteq> DeleteColumn c"
  shows "snd (apply_op op t) = t"
proof (cases op)
  case (AddColumn c T)
  with assms(1) show ?thesis by (auto simp: add_column_def split: if_splits)
next
  case (DeleteColumn c)
  with assms(2) show ?thesis by simp
next
  case (AddRow vs)
  with assms(1) show ?thesis by (auto simp: add_row_def split: if_splits sum.splits)
next
  case (UpdateRow i vs)
  with assms(1) show ?thesis by (auto simp: update_row_def split: if_splits sum.splits)
next
  case (DeleteRow i)
  with assms(1) show ?thesis by (auto simp: del_row_def split: sum.splits)
next
  case RemoveDuplicates
  with assms(1) show ?thesis by (auto simp: remove_duplicates_def split: sum.splits)
qed

lemma track_add_column:
  assumes "tracked_ok (t, late)" and "four_tags T" and "c \<notin> set (column_names t)"
  shows "tracked_ok (snd (add_column t c T), map (insert c) late)"
proof (rule tracked_okI)
  from assms show "all_four_tags (column_info (snd (add_column t c T)))"
    by (simp add: tracked_ok_def add_column_def all_four_tags_def)
  from assms(1) have "list_all2 none_allowed (rows t) late" by (simp add: tracked_ok_def)
  then have "list_all2 (\<lambda>r S. none_allowed (r(c \<mapsto> VNone)) (insert c S)) (rows t) late"
    by (rule list_all2_mono) (rule none_allowed_add)
  with assms(3) show "list_all2 none_allowed (rows (snd (add_column t c T))) (map (insert c) late)"
    by (simp add: add_column_def list_all2_map1 list_all2_map2)
qed

lemma all_four_tags_take_drop:
  "all_four_tags cols \<Longrightarrow> all_four_tags (take i cols @ drop (Suc i) cols)"
  by (auto simp: all_four_tags_def list_all_iff dest: in_set_takeD in_set_dropD)

text \<open>
  \<open>delete_column\<close>, whether it succeeds, finds no such column, or stops at a row without
  the key.
\<close>

lemma track_delete_column:
  assumes "tracked_ok (t, late)"
  shows "tracked_ok (snd (delete_column t c),
                     if fst (delete_column t c) = None then map (\<lambda>S. S - {c}) late else late)"
proof (cases "c \<in> set (column_names t)")
  case False
  with assms show ?thesis by (simp add: delete_column_def)
next
  case True
  from assms have ft: "all_four_tags (column_info t)"
    and l: "list_all2 none_allowed (rows t) late" by (simp_all add: tracked_ok_def)
  obtain e rs' where d: "del_key_rows c (rows t) = (e, rs')"
    by (cases "del_key_rows c (rows t)")
  let ?cols = "take (list_index (column_names t) c) (column_info t) @
               drop (Suc (list_index (column_names t) c)) (column_info t)"
  from True d have res: "delete_column t c = (e, \<lparr>column_info = ?cols, rows = rs'\<rparr>)"
    by (simp add: delete_column_def Let_def)
  from ft have cols: "all_four_tags ?cols" by (rule all_four_tags_take_drop)
  show ?thesis
  proof (cases e)
    case None
    with d have "rs' = map (\<lambda>r. r(c := None)) (rows t)" by (simp add: del_key_rows_success)
    moreover from l
    have "list_all2 (\<lambda>r S. none_allowed (r(c := None)) (S - {c})) (rows t) late"
      by (rule list_all2_mono) (rule none_allowed_del)
    ultimately have "list_all2 none_allowed rs' (map (\<lambda>S. S - {c}) late)"
      by (simp add: list_all2_map1 list_all2_map2)
    with cols None show ?thesis unfolding res by (simp add: tracked_ok_def)
  next
    case (Some err)
    from d l have "list_all2 none_allowed rs' late"
      by (rule del_key_rows_none_allowed)
    with cols Some show ?thesis unfolding res by (simp add: tracked_ok_def)
  qed
qed

lemma track_add_row:
  assumes "tracked_ok (t, late)" and "fst (add_row t vs) = None"
  shows "tracked_ok (snd (add_row t vs), late @ [{}])"
proof (rule tracked_okI)
  from assms(1) have ft: "all_four_tags (column_info t)"
    and l: "list_all2 none_allowed (rows t) late" by (simp_all add: tracked_ok_def)
  from assms(2) have len: "length vs = length (column_info t)"
    by (auto simp: add_row_def split: if_splits)
  with assms(2) obtain out where out: "validate (column_info t) vs = Inr out"
    by (auto simp: add_row_def split: sum.splits)
  with len have "out = vs" by (rule validate_Inr)
  with out len have res: "snd (add_row t vs) = t\<lparr>rows := rows t @ [dict_zip (column_names t) vs]\<rparr>"
    by (simp add: add_row_def)
  from validate_no_None [OF ft len out]
  have "none_allowed (dict_zip (column_names t) vs) {}" by (rule none_allowed_dict_zip)
  with l show "list_all2 none_allowed (rows (snd (add_row t vs))) (late @ [{}])"
    unfolding res by (simp add: list_all2_appendI)
  from ft show "all_four_tags (column_info (snd (add_row t vs)))" unfolding res by simp
qed

lemma track_update_row:
  assumes "tracked_ok (t, late)" and "fst (update_row t i vs) = None"
  shows "tracked_ok (snd (update_row t i vs), late[nat i := {}])"
proof (rule tracked_okI)
  from assms(1) have ft: "all_four_tags (column_info t)"
    and l: "list_all2 none_allowed (rows t) late" by (simp_all add: tracked_ok_def)
  from assms(2) have len: "length vs = length (column_info t)"
    by (auto simp: update_row_def split: if_splits)
  with assms(2) obtain out where out: "validate (column_info t) vs = Inr out"
    by (auto simp: update_row_def split: sum.splits if_splits)
  with len have "out = vs" by (rule validate_Inr)
  with out len assms(2)
  have res: "snd (update_row t i vs) =
               t\<lparr>rows := (rows t)[nat i := dict_zip (column_names t) vs]\<rparr>"
    by (auto simp: update_row_def split: if_splits)
  from validate_no_None [OF ft len out]
  have "none_allowed (dict_zip (column_names t) vs) {}" by (rule none_allowed_dict_zip)
  with l show "list_all2 none_allowed (rows (snd (update_row t i vs))) (late[nat i := {}])"
    unfolding res by (simp add: list_all2_update_cong)
  from ft show "all_four_tags (column_info (snd (update_row t i vs)))" unfolding res by simp
qed

lemma track_del_row:
  assumes "tracked_ok (t, late)" and "fst (del_row t (int i)) = None"
  shows "tracked_ok (snd (del_row t (int i)), take i late @ drop (Suc i) late)"
proof (rule tracked_okI)
  from assms(1) have ft: "all_four_tags (column_info t)"
    and l: "list_all2 none_allowed (rows t) late" by (simp_all add: tracked_ok_def)
  from assms(2)
  have res: "snd (del_row t (int i)) = t\<lparr>rows := take i (rows t) @ drop (Suc i) (rows t)\<rparr>"
    by (auto simp: del_row_def list_del_nat split: if_splits)
  from l
  show "list_all2 none_allowed (rows (snd (del_row t (int i)))) (take i late @ drop (Suc i) late)"
    unfolding res by (simp add: list_all2_appendI)
  from ft show "all_four_tags (column_info (snd (del_row t (int i))))" unfolding res by simp
qed

lemma track_remove_duplicates:
  assumes "tracked_ok (t, late)"
    and "dedup_loop (\<lambda>p. row_key (column_info t) (fst p)) [] [] (zip (rows t) late) = Inr kept"
  shows "tracked_ok (snd (remove_duplicates t), map snd kept)"
proof -
  from assms(1) have ft: "all_four_tags (column_info t)"
    and l: "list_all2 none_allowed (rows t) late" by (simp_all add: tracked_ok_def)
  from l have len: "length (rows t) = length late" by (rule list_all2_lengthD)
  have "dedup_loop (row_key (column_info t)) [] [] (rows t) = Inr (map fst kept)"
    using dedup_loop_paired [of "row_key (column_info t)" "[]" "[]" "zip (rows t) late"]
      assms(2) len
    by simp
  then have res: "snd (remove_duplicates t) = t\<lparr>rows := map fst kept\<rparr>"
    by (simp add: remove_duplicates_def)
  from assms(2) have "set kept \<subseteq> set (zip (rows t) late)"
    using dedup_loop_subset by fastforce
  with l have "list_all2 none_allowed (map fst kept) (map snd kept)" by (rule list_all2_kept)
  with ft res show ?thesis by (simp add: tracked_ok_def)
qed

lemma track_fst: "fst (track op (t, late)) = snd (apply_op op t)"
  by (cases "apply_op op t") (auto simp: track.simps split: option.splits)

lemma track_failure:
  "fst (apply_op op t) = Some e \<Longrightarrow> track op (t, late) = (snd (apply_op op t), late)"
  by (cases "apply_op op t") (auto simp: track.simps)

lemma track_step:
  assumes "tracked_ok (t, late)" and "op_four_tags op"
  shows "tracked_ok (track op (t, late))"
proof (cases op)
  case (AddColumn c T)
  show ?thesis
  proof (cases "fst (add_column t c T)")
    case (Some e)
    with AddColumn have "snd (apply_op op t) = t"
      using failure_unchanged [of op t e] by simp
    with Some AddColumn assms(1) show ?thesis by (simp add: track_failure)
  next
    case None
    then have c: "c \<notin> set (column_names t)"
      by (auto simp: add_column_def split: if_splits)
    from AddColumn assms(2) have "four_tags T" by simp
    with assms(1) have "tracked_ok (snd (add_column t c T), map (insert c) late)"
      using c by (rule track_add_column)
    moreover from AddColumn None
    have "track op (t, late) = (snd (add_column t c T), map (insert c) late)"
      by (cases "add_column t c T") (auto simp: track.simps)
    ultimately show ?thesis by simp
  qed
next
  case (DeleteColumn c)
  have "track op (t, late) =
          (snd (delete_column t c),
           if fst (delete_column t c) = None then map (\<lambda>S. S - {c}) late else late)"
    using DeleteColumn by (cases "delete_column t c") (auto simp: track.simps)
  with track_delete_column [OF assms(1), of c] show ?thesis by simp
next
  case (AddRow vs)
  show ?thesis
  proof (cases "fst (add_row t vs)")
    case (Some e)
    with AddRow have "snd (apply_op op t) = t"
      using failure_unchanged [of op t e] by simp
    with Some AddRow assms(1) show ?thesis by (simp add: track_failure)
  next
    case None
    with assms(1) have "tracked_ok (snd (add_row t vs), late @ [{}])"
      by (rule track_add_row)
    moreover from AddRow None
    have "track op (t, late) = (snd (add_row t vs), late @ [{}])"
      by (cases "add_row t vs") (auto simp: track.simps)
    ultimately show ?thesis by simp
  qed
next
  case (UpdateRow i vs)
  show ?thesis
  proof (cases "fst (update_row t i vs)")
    case (Some e)
    with UpdateRow have "snd (apply_op op t) = t"
      using failure_unchanged [of op t e] by simp
    with Some UpdateRow assms(1) show ?thesis by (simp add: track_failure)
  next
    case None
    with assms(1) have "tracked_ok (snd (update_row t i vs), late[nat i := {}])"
      by (rule track_update_row)
    moreover from UpdateRow None
    have "track op (t, late) = (snd (update_row t i vs), late[nat i := {}])"
      by (cases "update_row t i vs") (auto simp: track.simps)
    ultimately show ?thesis by simp
  qed
next
  case (DeleteRow i)
  show ?thesis
  proof (cases "fst (del_row t (int i))")
    case (Some e)
    with DeleteRow have "snd (apply_op op t) = t"
      using failure_unchanged [of op t e] by simp
    with Some DeleteRow assms(1) show ?thesis by (simp add: track_failure)
  next
    case None
    with assms(1) have "tracked_ok (snd (del_row t (int i)), take i late @ drop (Suc i) late)"
      by (rule track_del_row)
    moreover from DeleteRow None
    have "track op (t, late) = (snd (del_row t (int i)), take i late @ drop (Suc i) late)"
      by (cases "del_row t (int i)") (auto simp: track.simps)
    ultimately show ?thesis by simp
  qed
next
  case RemoveDuplicates
  show ?thesis
  proof (cases "fst (remove_duplicates t)")
    case (Some e)
    with RemoveDuplicates have "snd (apply_op op t) = t"
      using failure_unchanged [of op t e] by simp
    with Some RemoveDuplicates assms(1) show ?thesis by (simp add: track_failure)
  next
    case None
    from assms(1) have "list_all2 none_allowed (rows t) late" by (simp add: tracked_ok_def)
    then have len: "length (rows t) = length late" by (rule list_all2_lengthD)
    from None obtain ks
      where ks: "dedup_loop (row_key (column_info t)) [] [] (rows t) = Inr ks"
      by (auto simp: remove_duplicates_def split: sum.splits)
    from dedup_loop_paired [of "row_key (column_info t)" "[]" "[]" "zip (rows t) late"] ks len
    obtain kept
      where kept: "dedup_loop (\<lambda>p. row_key (column_info t) (fst p)) [] [] (zip (rows t) late)
                     = Inr kept"
      by (auto split: sum.splits)
    from assms(1) kept have "tracked_ok (snd (remove_duplicates t), map snd kept)"
      by (rule track_remove_duplicates)
    moreover from RemoveDuplicates None kept
    have "track op (t, late) = (snd (remove_duplicates t), map snd kept)"
      by (cases "remove_duplicates t") (auto simp: track.simps)
    ultimately show ?thesis by simp
  qed
qed

lemma track_run_ok:
  "tracked_ok s \<Longrightarrow> list_all op_four_tags ops \<Longrightarrow> tracked_ok (track_run ops s)"
proof (induction ops arbitrary: s)
  case Nil
  then show ?case by (simp add: track_run_def)
next
  case (Cons op ops)
  obtain t late where s: "s = (t, late)" by (cases s)
  from Cons.prems s have "tracked_ok (track op s)" by (simp add: track_step)
  moreover from Cons.prems have "list_all op_four_tags ops" by simp
  ultimately have "tracked_ok (track_run ops (track op s))" by (rule Cons.IH)
  then show ?case by (simp add: track_run_def)
qed

lemma track_run_fst: "fst (track_run ops s) = run ops (fst s)"
proof (induction ops arbitrary: s)
  case Nil
  then show ?case by (simp add: track_run_def run_def)
next
  case (Cons op ops)
  obtain t late where s: "s = (t, late)" by (cases s)
  have "fst (track_run (op # ops) s) = fst (track_run ops (track op s))"
    by (simp add: track_run_def)
  also have "\<dots> = run ops (fst (track op s))" by (rule Cons.IH)
  also have "\<dots> = run (op # ops) (fst s)" using s by (simp add: run_def track_fst)
  finally show ?case .
qed

lemma reject_None:
  assumes "all_four_tags (column_info t)" and "length vs = length (column_info t)"
    and "i < length vs" and "vs ! i = VNone"
  shows "\<exists>j\<le>i. add_row t vs =
                  (Some (TypeMismatch (fst (column_info t ! j)) (snd (column_info t ! j))
                           (type_of (vs ! j))), t) \<and>
               (0 \<le> k \<and> k < int (length (rows t)) \<longrightarrow>
                  update_row t k vs =
                    (Some (TypeMismatch (fst (column_info t ! j)) (snd (column_info t ! j))
                             (type_of (vs ! j))), t))"
proof -
  from validate_rejects_None [OF assms] obtain j where j: "j \<le> i"
    "validate (column_info t) vs =
       Inl (TypeMismatch (fst (column_info t ! j)) (snd (column_info t ! j)) (type_of (vs ! j)))"
    by blast
  with assms(2) show ?thesis
    by (intro exI [of _ j]) (simp add: add_row_def update_row_def)
qed

lemma tracked_none:
  assumes "all_four_tags cols" and "list_all op_four_tags ops"
  shows "fst (track_run ops (DynamicTable cols, [])) = run ops (DynamicTable cols) \<and>
         length (snd (track_run ops (DynamicTable cols, []))) =
           length (rows (run ops (DynamicTable cols))) \<and>
         (\<forall>n < length (rows (run ops (DynamicTable cols))). \<forall>c.
            (rows (run ops (DynamicTable cols)) ! n) c = Some VNone \<longrightarrow>
            c \<in> snd (track_run ops (DynamicTable cols, [])) ! n)"
proof -
  let ?s = "track_run ops (DynamicTable cols, [])"
  have "tracked_ok (DynamicTable cols, [])"
    using assms(1) by (simp add: tracked_ok_def DynamicTable_def)
  then have "tracked_ok ?s" using assms(2) by (rule track_run_ok)
  then have l: "list_all2 none_allowed (rows (fst ?s)) (snd ?s)" by (simp add: tracked_ok_def)
  have f: "fst ?s = run ops (DynamicTable cols)" by (simp add: track_run_fst)
  from l have "length (rows (fst ?s)) = length (snd ?s)" by (rule list_all2_lengthD)
  moreover from l have "\<forall>n < length (rows (fst ?s)). none_allowed (rows (fst ?s) ! n) (snd ?s ! n)"
    by (simp add: list_all2_conv_all_nth)
  ultimately show ?thesis unfolding f by (simp add: none_allowed_def)
qed

section \<open>Failures leave the table as it was\<close>

text \<open>
  C4. Whenever \<open>add_row\<close>, \<open>update_row\<close> or \<open>add_column\<close> raises, the table the call leaves
  behind (schema and row sequence) is the table it was given: each of them checks
  everything before it writes anything.
\<close>

theorem failure_leaves_table_unchanged:
  "(fst (add_row t vs) \<noteq> None \<longrightarrow> snd (add_row t vs) = t) \<and>
   (fst (update_row t i ws) \<noteq> None \<longrightarrow> snd (update_row t i ws) = t) \<and>
   (fst (add_column t c T) \<noteq> None \<longrightarrow> snd (add_column t c T) = t)"
  by (auto simp: add_row_def update_row_def add_column_def split: if_splits sum.splits)

theorem failure_leaves_table_unchanged_witness:
  "fst (add_row \<lparr>column_info = [(''Name'', TStr)], rows = [[''Name'' \<mapsto> VStr ''X'']]\<rparr> [VInt 42])
     = Some (TypeMismatch ''Name'' TStr TInt) \<and>
   snd (add_row \<lparr>column_info = [(''Name'', TStr)], rows = [[''Name'' \<mapsto> VStr ''X'']]\<rparr> [VInt 42])
     = \<lparr>column_info = [(''Name'', TStr)], rows = [[''Name'' \<mapsto> VStr ''X'']]\<rparr> \<and>
   fst (update_row \<lparr>column_info = [(''Name'', TStr)], rows = [[''Name'' \<mapsto> VStr ''X'']]\<rparr> 0 [])
     = Some ArityMismatch \<and>
   snd (update_row \<lparr>column_info = [(''Name'', TStr)], rows = [[''Name'' \<mapsto> VStr ''X'']]\<rparr> 0 [])
     = \<lparr>column_info = [(''Name'', TStr)], rows = [[''Name'' \<mapsto> VStr ''X'']]\<rparr> \<and>
   fst (add_column \<lparr>column_info = [(''Name'', TStr)], rows = [[''Name'' \<mapsto> VStr ''X'']]\<rparr> ''Name'' TInt)
     = Some (DuplicateColumn ''Name'') \<and>
   snd (add_column \<lparr>column_info = [(''Name'', TStr)], rows = [[''Name'' \<mapsto> VStr ''X'']]\<rparr> ''Name'' TInt)
     = \<lparr>column_info = [(''Name'', TStr)], rows = [[''Name'' \<mapsto> VStr ''X'']]\<rparr>"
  using failure_leaves_table_unchanged
    [of "\<lparr>column_info = [(''Name'', TStr)], rows = [[''Name'' \<mapsto> VStr ''X'']]\<rparr>"
        "[VInt 42]" 0 "[]" "''Name''" TInt]
  by (simp add: add_row_def update_row_def add_column_def isinstance_def column_names_def)
section \<open>Booleans in integer columns\<close>

text \<open>
  C1, as the source decides it. The claim says that a boolean at the position of an
  integer column is rejected with \<open>TypeMismatch\<close>. The check is \<open>isinstance\<close>, and \<open>bool\<close>
  is a subclass of \<open>int\<close>, so the boolean is accepted: here \<open>add_row\<close> on a table with the
  single column \<open>Age\<close> of type \<open>int\<close> stores \<open>True\<close> and reports no error.
\<close>

theorem bool_in_int_column_counterexample:
  "add_row (DynamicTable [(''Age'', TInt)]) [VBool True]
     = (None, \<lparr>column_info = [(''Age'', TInt)], rows = [[''Age'' \<mapsto> VBool True]]\<rparr>)"
  by (simp add: add_row_def DynamicTable_def isinstance_def dict_zip_def column_names_def)

text \<open>
  C1, amended. A boolean at the position of an integer column passes the type check:
  when the number of values matches the number of columns and the value at every other
  position is an instance of its column's type, \<open>add_row\<close> appends the row built from the
  values and \<open>update_row\<close>, at a valid index, replaces the row there by it; neither
  reports an error.
\<close>

theorem bool_satisfies_int_column:
  assumes "length vs = length (column_info t)"
    and "i < length (column_info t)"
    and "snd (column_info t ! i) = TInt"
    and "vs ! i = VBool b"
    and "\<forall>j < length (column_info t). j \<noteq> i \<longrightarrow> isinstance (vs ! j) (snd (column_info t ! j))"
  shows "add_row t vs = (None, t\<lparr>rows := rows t @ [dict_zip (column_names t) vs]\<rparr>) \<and>
         (0 \<le> k \<and> k < int (length (rows t)) \<longrightarrow>
            update_row t k vs =
              (None, t\<lparr>rows := (rows t)[nat k := dict_zip (column_names t) vs]\<rparr>))"
proof -
  have "\<forall>j < length (column_info t). isinstance (vs ! j) (snd (column_info t ! j))"
    using assms(3,4,5) isinstance_bool_int by metis
  with assms(1) have "validate (column_info t) vs = Inr vs"
    by (rule validate_all_instances)
  with assms(1) show ?thesis
    by (simp add: add_row_def update_row_def)
qed

theorem bool_satisfies_int_column_witness:
  "add_row \<lparr>column_info = [(''Name'', TStr), (''Age'', TInt)],
            rows = [[''Name'' \<mapsto> VStr ''Al'', ''Age'' \<mapsto> VInt 3]]\<rparr>
      [VStr ''Bob'', VBool True]
   = (None, \<lparr>column_info = [(''Name'', TStr), (''Age'', TInt)],
             rows = [[''Name'' \<mapsto> VStr ''Al'', ''Age'' \<mapsto> VInt 3],
                     [''Name'' \<mapsto> VStr ''Bob'', ''Age'' \<mapsto> VBool True]]\<rparr>) \<and>
   update_row \<lparr>column_info = [(''Name'', TStr), (''Age'', TInt)],
               rows = [[''Name'' \<mapsto> VStr ''Al'', ''Age'' \<mapsto> VInt 3]]\<rparr>
      0 [VStr ''Bob'', VBool True]
   = (None, \<lparr>column_info = [(''Name'', TStr), (''Age'', TInt)],
             rows = [[''Name'' \<mapsto> VStr ''Bob'', ''Age'' \<mapsto> VBool True]]\<rparr>)"
proof -
  let ?t = "\<lparr>column_info = [(''Name'', TStr), (''Age'', TInt)],
            rows = [[''Name'' \<mapsto> VStr ''Al'', ''Age'' \<mapsto> VInt 3]]\<rparr>"
  let ?vs = "[VStr ''Bob'', VBool True]"
  have h1: "length ?vs = length (column_info ?t)" by simp
  have h2: "1 < length (column_info ?t)" by simp
  have h3: "snd (column_info ?t ! 1) = TInt" by simp
  have h4: "?vs ! 1 = VBool True" by simp
  have h5: "\<forall>j < length (column_info ?t). j \<noteq> 1 \<longrightarrow>
              isinstance (?vs ! j) (snd (column_info ?t ! j))"
    by (simp add: isinstance_def less_Suc_eq)
  show ?thesis
    using bool_satisfies_int_column [OF h1 h2 h3 h4 h5, of 0]
    by (simp add: dict_zip_def column_names_def)
qed

section \<open>Creating a table\<close>

text \<open>
  C2. A call of \<open>add_table\<close> whose column list repeats a column name should fail and
  create no table. The source does not do this: \<open>add_table\<close> looks at the table name
  only and creates the table with the name \<open>A\<close> twice in its schema, whereas
  \<open>add_column\<close> refuses a name the schema already has. On such a table \<open>add_row\<close> then
  stores one value for the two columns and drops the other.
\<close>

theorem add_table_repeated_name_accepted:
  "\<not> distinct (map fst [(''A'', TInt), (''A'', TInt)]) \<and>
   add_table Database ''T'' [(''A'', TInt), (''A'', TInt)]
     = (None, \<lparr>tables = [''T'' \<mapsto> \<lparr>column_info = [(''A'', TInt), (''A'', TInt)],
                                    rows = []\<rparr>]\<rparr>) \<and>
   add_column (DynamicTable [(''A'', TInt)]) ''A'' TInt
     = (Some (DuplicateColumn ''A''), DynamicTable [(''A'', TInt)]) \<and>
   add_row \<lparr>column_info = [(''A'', TInt), (''A'', TInt)], rows = []\<rparr> [VInt 1, VInt 2]
     = (None, \<lparr>column_info = [(''A'', TInt), (''A'', TInt)], rows = [[''A'' \<mapsto> VInt 2]]\<rparr>)"
  by (simp add: add_table_def Database_def DynamicTable_def add_column_def add_row_def
        isinstance_def dict_zip_def column_names_def)

section \<open>Displaying a table\<close>

text \<open>
  C3, as the source decides it. The claim says that the header is followed by exactly one
  line per row and that \<open>None\<close> is shown as the empty string. For a table with the column
  \<open>A\<close> and one row holding \<open>None\<close>, the lines printed are the header, a line of dashes and
  the line \<open>None\<close>, not the header and an empty line.
\<close>

theorem display_table_counterexample:
  "display_table (\<lambda>q. []) \<lparr>column_info = [(''A'', TInt)], rows = [[''A'' \<mapsto> VNone]]\<rparr> []
     = [''A'', ''-'', ''None''] \<and>
   display_table (\<lambda>q. []) \<lparr>column_info = [(''A'', TInt)], rows = [[''A'' \<mapsto> VNone]]\<rparr> []
     \<noteq> [''A'', '''']"
  by (simp add: display_table_def print_def row_line_def cell_text_def column_names_def)

text \<open>
  C3, amended. \<open>display_table\<close> prints the column names joined by \<open>|\<close>, then a line of
  dashes as long as that header, then exactly one line per row, in row order; the line of
  a row is the text of its values, in column order, joined by \<open>|\<close>, where a column the
  row has no entry for gives the empty string.
\<close>

theorem display_table_lines:
  "display_table float_str t out =
     out @ [join ''|'' (column_names t),
            replicate (length (join ''|'' (column_names t))) CHR ''-''] @
           map (\<lambda>row. join ''|''
                  (map (\<lambda>name. case row name of None \<Rightarrow> [] | Some v \<Rightarrow> py_str float_str v)
                     (column_names t)))
               (rows t)"
  by (simp add: display_table_def Let_def fold_print print_def row_line_def cell_text_def
        column_names_def comp_def)

section \<open>Removing duplicates\<close>

text \<open>
  C5, as the source decides it. The claim says that the first occurrence of each distinct
  row is kept. The rows are compared with \<open>==\<close>, under which \<open>True\<close> equals \<open>1\<close>, and an
  integer column accepts a boolean: after \<open>add_row([1])\<close> and \<open>add_row([True])\<close> on a
  table with one integer column the two rows are not duplicates of each other, yet
  \<open>remove_duplicates\<close> drops the second.
\<close>

theorem remove_duplicates_bool_int_counterexample:
  "run [AddRow [VInt 1], AddRow [VBool True]] (DynamicTable [(''N'', TInt)]) =
     \<lparr>column_info = [(''N'', TInt)], rows = [[''N'' \<mapsto> VInt 1], [''N'' \<mapsto> VBool True]]\<rparr> \<and>
   \<not> duplicates [(''N'', TInt)] [''N'' \<mapsto> VInt 1] [''N'' \<mapsto> VBool True] \<and>
   remove_duplicates
     \<lparr>column_info = [(''N'', TInt)], rows = [[''N'' \<mapsto> VInt 1], [''N'' \<mapsto> VBool True]]\<rparr> =
     (None, \<lparr>column_info = [(''N'', TInt)], rows = [[''N'' \<mapsto> VInt 1]]\<rparr>)"
  by (simp add: run_def DynamicTable_def add_row_def isinstance_def dict_zip_def
        column_names_def duplicates_def remove_duplicates_def key_in_def)

text \<open>
  C5, amended. On a table whose rows each have an entry for every column of the schema,
  \<open>remove_duplicates\<close> succeeds and keeps, in their original order, exactly the rows
  whose key tuple is not equal to the key tuple of an earlier row, and drops all others;
  key tuples are the rows' values in schema order, compared with \<open>==\<close>, under which
  \<open>True\<close> equals \<open>1\<close> and \<open>False\<close> equals \<open>0\<close>. For the schema
  \<open>[("Name", str), ("Age", int)]\<close> and the rows \<open>("Alice", 25)\<close>, \<open>("Bob", 30)\<close>,
  \<open>("Alice", 25)\<close> inserted in that order, the rows left are \<open>("Alice", 25)\<close>,
  \<open>("Bob", 30)\<close>.
\<close>

theorem remove_duplicates_keeps_first_occurrences:
  "((\<forall>r \<in> set (rows t). set (column_names t) \<subseteq> dom r) \<longrightarrow>
      remove_duplicates t =
        (None, t\<lparr>rows := map ((!) (rows t))
                  (filter (\<lambda>j. \<forall>i<j. \<not> same_key (column_info t) (rows t ! i) (rows t ! j))
                     [0..<length (rows t)])\<rparr>)) \<and>
   remove_duplicates
     (run [AddRow [VStr ''Alice'', VInt 25], AddRow [VStr ''Bob'', VInt 30],
           AddRow [VStr ''Alice'', VInt 25]]
        (DynamicTable [(''Name'', TStr), (''Age'', TInt)])) =
     (None, \<lparr>column_info = [(''Name'', TStr), (''Age'', TInt)],
             rows = [[''Name'' \<mapsto> VStr ''Alice'', ''Age'' \<mapsto> VInt 25],
                     [''Name'' \<mapsto> VStr ''Bob'', ''Age'' \<mapsto> VInt 30]]\<rparr>)"
proof
  show "(\<forall>r \<in> set (rows t). set (column_names t) \<subseteq> dom r) \<longrightarrow>
      remove_duplicates t =
        (None, t\<lparr>rows := map ((!) (rows t))
                  (filter (\<lambda>j. \<forall>i<j. \<not> same_key (column_info t) (rows t ! i) (rows t ! j))
                     [0..<length (rows t)])\<rparr>)"
    using remove_duplicates_first_occ by blast
next
  show "remove_duplicates
     (run [AddRow [VStr ''Alice'', VInt 25], AddRow [VStr ''Bob'', VInt 30],
           AddRow [VStr ''Alice'', VInt 25]]
        (DynamicTable [(''Name'', TStr), (''Age'', TInt)])) =
     (None, \<lparr>column_info = [(''Name'', TStr), (''Age'', TInt)],
             rows = [[''Name'' \<mapsto> VStr ''Alice'', ''Age'' \<mapsto> VInt 25],
                     [''Name'' \<mapsto> VStr ''Bob'', ''Age'' \<mapsto> VInt 30]]\<rparr>)"
    by (simp add: run_def add_row_def DynamicTable_def isinstance_def dict_zip_def
          column_names_def remove_duplicates_def key_in_def)
qed

theorem remove_duplicates_keeps_first_occurrences_witness:
  "remove_duplicates
     \<lparr>column_info = [(''N'', TInt)],
      rows = [[''N'' \<mapsto> VInt 1], [''N'' \<mapsto> VInt 2], [''N'' \<mapsto> VBool True], [''N'' \<mapsto> VInt 2]]\<rparr> =
   (None, \<lparr>column_info = [(''N'', TInt)],
           rows = [[''N'' \<mapsto> VInt 1], [''N'' \<mapsto> VInt 2]]\<rparr>)"
proof -
  let ?t = "\<lparr>column_info = [(''N'', TInt)],
      rows = [[''N'' \<mapsto> VInt 1], [''N'' \<mapsto> VInt 2], [''N'' \<mapsto> VBool True], [''N'' \<mapsto> VInt 2]]\<rparr>"
  have h: "\<forall>r \<in> set (rows ?t). set (column_names ?t) \<subseteq> dom r"
    by (simp add: column_names_def)
  from remove_duplicates_keeps_first_occurrences [of ?t] h
  have "remove_duplicates ?t =
        (None, ?t\<lparr>rows := map ((!) (rows ?t))
                  (filter (\<lambda>j. \<forall>i<j. \<not> same_key (column_info ?t) (rows ?t ! i) (rows ?t ! j))
                     [0..<length (rows ?t)])\<rparr>)" by blast
  then show ?thesis
    by (simp add: remove_duplicates_def key_in_def)
qed

text \<open>
  C6. \<open>remove_duplicates\<close> is idempotent: carried out on the table a first call left, it
  returns the same outcome and leaves the same table, so the row sequence after two
  calls is the row sequence after one.
\<close>

theorem remove_duplicates_idempotent:
  "remove_duplicates (snd (remove_duplicates t)) = remove_duplicates t"
proof (cases "dedup_loop (row_key (column_info t)) [] [] (rows t)")
  case (Inl e)
  then show ?thesis by (simp add: remove_duplicates_def)
next
  case (Inr ks)
  then have "dedup_loop (row_key (column_info t)) [] [] ks = Inr ks"
    by (rule dedup_loop_idem)
  with Inr show ?thesis by (simp add: remove_duplicates_def)
qed

section \<open>Adding and then deleting a column\<close>

text \<open>
  On a table whose rows have exactly the columns of the schema as keys, for a column
  name \<open>c\<close> that is not in the schema, \<open>add_column\<close> with \<open>c\<close> succeeds and
  \<open>delete_column\<close> with \<open>c\<close> on its result succeeds and gives back the table as it was:
  the same schema and the same rows, with the same keys, in the same order.
\<close>

lemma add_then_delete_column:
  assumes "lockstep t" and "c \<notin> set (column_names t)"
  shows "fst (add_column t c T) = None \<and>
         delete_column (snd (add_column t c T)) c = (None, t)"
proof -
  let ?t1 = "\<lparr>column_info = column_info t @ [(c, T)],
              rows = map (\<lambda>row. row(c \<mapsto> VNone)) (rows t)\<rparr>"
  have add: "add_column t c T = (None, ?t1)"
    using assms(2) by (simp add: add_column_def)
  have idx: "list_index (column_names ?t1) c = length (column_info t)"
    using assms(2) list_index_append_last [of c "map fst (column_info t)"]
    by (simp add: column_names_def)
  have "\<forall>r \<in> set (rows ?t1). c \<in> dom r" by auto
  then have del: "del_key_rows c (rows ?t1) = (None, map (\<lambda>r. r(c := None)) (rows ?t1))"
    by (rule del_key_rows_ok)
  have "r(c := None) = r" if "r \<in> set (rows t)" for r
  proof -
    from lockstep_rows [OF assms(1) that] assms(2) have "c \<notin> dom r" by simp
    then show ?thesis by (simp add: domIff fun_upd_idem)
  qed
  then have rows: "map (\<lambda>r. r(c := None)) (rows ?t1) = rows t"
    by (simp add: comp_def map_idI)
  have "delete_column ?t1 c = (None, \<lparr>column_info = column_info t, rows = rows t\<rparr>)"
    using del rows idx by (simp add: delete_column_def Let_def column_names_def)
  with add show ?thesis by simp
qed

text \<open>
  C7. For every table and every column name \<open>c\<close> that is not in its schema,
  \<open>add_column\<close> with \<open>c\<close> followed by \<open>delete_column\<close> with \<open>c\<close> should restore the schema
  and every row's key set. The source does not do this on a table it can reach from a
  schema that names \<open>A\<close> twice, which \<open>add_table\<close> creates: after \<open>add_row([1, 2])\<close>,
  \<open>delete_column("A")\<close>, \<open>add_row([5])\<close> and \<open>delete_column("A")\<close>, whose loop stops with
  \<open>KeyError\<close> at the first row, the schema is empty and the second row still has the key
  \<open>A\<close>. The column \<open>A\<close> is not in the schema, both calls of the round trip succeed, and
  they leave that row without its key and its value.
\<close>

theorem add_then_delete_column_loses_key:
  "run [AddRow [VInt 1, VInt 2], DeleteColumn ''A'', AddRow [VInt 5], DeleteColumn ''A'']
     (DynamicTable [(''A'', TInt), (''A'', TInt)]) =
     \<lparr>column_info = [], rows = [Map.empty, [''A'' \<mapsto> VInt 5]]\<rparr> \<and>
   ''A'' \<notin> set (column_names \<lparr>column_info = [], rows = [Map.empty, [''A'' \<mapsto> VInt 5]]\<rparr>) \<and>
   add_column \<lparr>column_info = [], rows = [Map.empty, [''A'' \<mapsto> VInt 5]]\<rparr> ''A'' TInt =
     (None, \<lparr>column_info = [(''A'', TInt)], rows = [[''A'' \<mapsto> VNone], [''A'' \<mapsto> VNone]]\<rparr>) \<and>
   delete_column
     \<lparr>column_info = [(''A'', TInt)], rows = [[''A'' \<mapsto> VNone], [''A'' \<mapsto> VNone]]\<rparr> ''A'' =
     (None, \<lparr>column_info = [], rows = [Map.empty, Map.empty]\<rparr>) \<and>
   dom [''A'' \<mapsto> VInt 5] \<noteq> dom (Map.empty :: row)"
  by (simp add: run_def DynamicTable_def add_row_def add_column_def delete_column_def
        isinstance_def dict_zip_def column_names_def)

section \<open>The lockstep invariant\<close>

text \<open>
  C8. Start from a well-formed table: its column names are distinct and the key set of
  every row is the set of column names. After any sequence of calls of \<open>add_column\<close>,
  \<open>delete_column\<close>, \<open>add_row\<close>, \<open>update_row\<close>, the deletion of a row and
  \<open>remove_duplicates\<close>, whether they succeed or fail, and after every prefix of that
  sequence, the key set of every row is the set of the table's current column names.
\<close>

theorem lockstep_invariant:
  assumes "well_formed t"
  shows "\<forall>n \<le> length ops. lockstep (run (take n ops) t)"
  using well_formed_run [OF assms] by (simp add: well_formed_def)

theorem lockstep_invariant_witness:
  "well_formed (DynamicTable [(''A'', TInt)]) \<and>
   lockstep (run [AddRow [VInt 1], AddColumn ''B'' TStr, AddRow [VInt 2], DeleteColumn ''A'',
                  UpdateRow 0 [VStr ''x''], DeleteRow 5, RemoveDuplicates]
               (DynamicTable [(''A'', TInt)])) \<and>
   run [AddRow [VInt 1], AddColumn ''B'' TStr, AddRow [VInt 2], DeleteColumn ''A'',
        UpdateRow 0 [VStr ''x''], DeleteRow 5, RemoveDuplicates]
     (DynamicTable [(''A'', TInt)]) =
   \<lparr>column_info = [(''B'', TStr)], rows = [[''B'' \<mapsto> VStr ''x'']]\<rparr>"
proof -
  let ?ops = "[AddRow [VInt 1], AddColumn ''B'' TStr, AddRow [VInt 2], DeleteColumn ''A'',
               UpdateRow 0 [VStr ''x''], DeleteRow 5, RemoveDuplicates]"
  have h: "well_formed (DynamicTable [(''A'', TInt)])"
    by (simp add: well_formed_def lockstep_def DynamicTable_def column_names_def)
  from lockstep_invariant [OF h, of ?ops]
  have "lockstep (run (take (length ?ops) ?ops) (DynamicTable [(''A'', TInt)]))" by blast
  then have l: "lockstep (run ?ops (DynamicTable [(''A'', TInt)]))" by simp
  have "run ?ops (DynamicTable [(''A'', TInt)]) =
        \<lparr>column_info = [(''B'', TStr)], rows = [[''B'' \<mapsto> VStr ''x'']]\<rparr>"
    by (simp add: run_def DynamicTable_def add_row_def add_column_def delete_column_def
          update_row_def del_row_def list_del_def remove_duplicates_def isinstance_def
          dict_zip_def column_names_def key_in_def)
  with h l show ?thesis by simp
qed

section \<open>Deleting a row\<close>

text \<open>
  C9. For a table of the catalog, \<open>delete_row\<close> with an index that is not a position of
  the row sequence fails with \<open>IndexOutOfBounds\<close> and leaves the catalog, and so the
  rows, as they were. With a valid index \<open>i\<close> it succeeds and changes only the rows of
  that table: there is one row less, the rows at positions below \<open>i\<close> are unchanged, and
  each row that was at a position \<open>j > i\<close> is now at position \<open>j - 1\<close>.
\<close>

theorem delete_row_spec:
  assumes "tables db table_name = Some t"
  shows "if i < length (rows t)
         then (\<exists>rs. delete_row db table_name i =
                      (None, db\<lparr>tables := (tables db)(table_name \<mapsto> t\<lparr>rows := rs\<rparr>)\<rparr>) \<and>
                    length rs = length (rows t) - 1 \<and>
                    (\<forall>j < i. rs ! j = rows t ! j) \<and>
                    (\<forall>j. i < j \<and> j < length (rows t) \<longrightarrow> rs ! (j - 1) = rows t ! j))
         else delete_row db table_name i = (Some IndexOutOfBounds, db)"
proof (cases "i < length (rows t)")
  case True
  let ?rs = "take i (rows t) @ drop (Suc i) (rows t)"
  have eq: "delete_row db table_name i =
              (None, db\<lparr>tables := (tables db)(table_name \<mapsto> t\<lparr>rows := ?rs\<rparr>)\<rparr>)"
    using assms True by (simp add: delete_row_def del_row_def list_del_nat)
  have len: "length ?rs = length (rows t) - 1" using True by simp
  have before: "\<forall>j < i. ?rs ! j = rows t ! j"
    using True by (simp add: nth_append)
  have after: "\<forall>j. i < j \<and> j < length (rows t) \<longrightarrow> ?rs ! (j - 1) = rows t ! j"
  proof (intro allI impI)
    fix j assume j: "i < j \<and> j < length (rows t)"
    then have "\<not> j - 1 < i" by arith
    moreover have "length (take i (rows t)) = i" using True by simp
    ultimately have "?rs ! (j - 1) = drop (Suc i) (rows t) ! (j - 1 - i)"
      by (simp add: nth_append)
    also have "\<dots> = rows t ! (Suc i + (j - 1 - i))"
      using j by simp
    also have "Suc i + (j - 1 - i) = j" using j by simp
    finally show "?rs ! (j - 1) = rows t ! j" .
  qed
  from True eq len before after show ?thesis by auto
next
  case False
  then show ?thesis
    using assms by (simp add: delete_row_def del_row_def list_del_nat)
qed

theorem delete_row_spec_witness:
  "delete_row \<lparr>tables = [''T'' \<mapsto> \<lparr>column_info = [(''A'', TInt)],
        rows = [[''A'' \<mapsto> VInt 1], [''A'' \<mapsto> VInt 2], [''A'' \<mapsto> VInt 3]]\<rparr>]\<rparr> ''T'' 1
     = (None, \<lparr>tables = [''T'' \<mapsto> \<lparr>column_info = [(''A'', TInt)],
        rows = [[''A'' \<mapsto> VInt 1], [''A'' \<mapsto> VInt 3]]\<rparr>]\<rparr>) \<and>
   delete_row \<lparr>tables = [''T'' \<mapsto> \<lparr>column_info = [(''A'', TInt)],
        rows = [[''A'' \<mapsto> VInt 1], [''A'' \<mapsto> VInt 2], [''A'' \<mapsto> VInt 3]]\<rparr>]\<rparr> ''T'' 3
     = (Some IndexOutOfBounds, \<lparr>tables = [''T'' \<mapsto> \<lparr>column_info = [(''A'', TInt)],
        rows = [[''A'' \<mapsto> VInt 1], [''A'' \<mapsto> VInt 2], [''A'' \<mapsto> VInt 3]]\<rparr>]\<rparr>)"
proof -
  let ?t = "\<lparr>column_info = [(''A'', TInt)],
        rows = [[''A'' \<mapsto> VInt 1], [''A'' \<mapsto> VInt 2], [''A'' \<mapsto> VInt 3]]\<rparr>"
  let ?db = "\<lparr>tables = [''T'' \<mapsto> ?t]\<rparr>"
  have h: "tables ?db ''T'' = Some ?t" by simp
  show ?thesis
    using delete_row_spec [OF h, of 1] delete_row_spec [OF h, of 3]
    by (simp add: delete_row_def del_row_def list_del_def)
qed

section \<open>Where None comes from\<close>

text \<open>
  C10. On a table whose columns are all typed with \<open>str\<close>, \<open>int\<close>, \<open>bool\<close> or \<open>float\<close>,
  \<open>add_row\<close>, and \<open>update_row\<close> at a valid index, given as many values as there are
  columns with \<open>None\<close> at some position, fail with \<open>TypeMismatch\<close> for a column at or
  before that position and leave the table as it was. Consequently, in every table
  reached from an empty table with so typed columns by operations that add only so typed
  columns, a row holds \<open>None\<close> only under a column that \<open>add_column\<close> added after
  \<open>add_row\<close> or \<open>update_row\<close> wrote the row: the history kept beside the table lists
  these columns row by row.
\<close>

theorem none_only_under_later_columns:
  "(all_four_tags (column_info t) \<and> length vs = length (column_info t) \<and>
    i < length vs \<and> vs ! i = VNone \<longrightarrow>
      (\<exists>j\<le>i. add_row t vs =
                  (Some (TypeMismatch (fst (column_info t ! j)) (snd (column_info t ! j))
                           (type_of (vs ! j))), t) \<and>
               (0 \<le> k \<and> k < int (length (rows t)) \<longrightarrow>
                  update_row t k vs =
                    (Some (TypeMismatch (fst (column_info t ! j)) (snd (column_info t ! j))
                             (type_of (vs ! j))), t)))) \<and>
   (all_four_tags cols \<and> list_all op_four_tags ops \<longrightarrow>
      fst (track_run ops (DynamicTable cols, [])) = run ops (DynamicTable cols) \<and>
      length (snd (track_run ops (DynamicTable cols, []))) =
        length (rows (run ops (DynamicTable cols))) \<and>
      (\<forall>n < length (rows (run ops (DynamicTable cols))). \<forall>c.
         (rows (run ops (DynamicTable cols)) ! n) c = Some VNone \<longrightarrow>
         c \<in> snd (track_run ops (DynamicTable cols, [])) ! n))"
  using reject_None [of t vs i k] tracked_none [of cols ops] by blast

theorem none_only_under_later_columns_witness:
  "add_row \<lparr>column_info = [(''A'', TInt), (''B'', TStr)], rows = [[''A'' \<mapsto> VInt 1, ''B'' \<mapsto> VNone]]\<rparr>
      [VInt 2, VNone] =
     (Some (TypeMismatch ''B'' TStr TNoneType),
      \<lparr>column_info = [(''A'', TInt), (''B'', TStr)], rows = [[''A'' \<mapsto> VInt 1, ''B'' \<mapsto> VNone]]\<rparr>) \<and>
   update_row \<lparr>column_info = [(''A'', TInt), (''B'', TStr)], rows = [[''A'' \<mapsto> VInt 1, ''B'' \<mapsto> VNone]]\<rparr>
      0 [VInt 2, VNone] =
     (Some (TypeMismatch ''B'' TStr TNoneType),
      \<lparr>column_info = [(''A'', TInt), (''B'', TStr)], rows = [[''A'' \<mapsto> VInt 1, ''B'' \<mapsto> VNone]]\<rparr>) \<and>
   track_run [AddRow [VInt 1], AddColumn ''B'' TStr, AddRow [VInt 2, VStr ''x'']]
     (DynamicTable [(''A'', TInt)], []) =
     (\<lparr>column_info = [(''A'', TInt), (''B'', TStr)],
       rows = [[''A'' \<mapsto> VInt 1, ''B'' \<mapsto> VNone], [''A'' \<mapsto> VInt 2, ''B'' \<mapsto> VStr ''x'']]\<rparr>,
      [{''B''}, {}]) \<and>
   track_run [AddRow [VInt 1, VInt 2], AddColumn ''B'' TStr, DeleteColumn ''A'']
     (DynamicTable [(''A'', TInt), (''A'', TInt)], []) =
     (\<lparr>column_info = [(''A'', TInt), (''B'', TStr)], rows = [[''B'' \<mapsto> VNone]]\<rparr>,
      [{''B''}])"
proof -
  let ?t = "\<lparr>column_info = [(''A'', TInt), (''B'', TStr)],
             rows = [[''A'' \<mapsto> VInt 1, ''B'' \<mapsto> VNone]]\<rparr>"
  let ?vs = "[VInt 2, VNone]"
  let ?cols = "[(''A'', TInt)]"
  let ?ops = "[AddRow [VInt 1], AddColumn ''B'' TStr, AddRow [VInt 2, VStr ''x'']]"
  have h1: "all_four_tags (column_info ?t) \<and> length ?vs = length (column_info ?t) \<and>
            1 < length ?vs \<and> ?vs ! 1 = VNone"
    by (simp add: all_four_tags_def four_tags_def)
  have h2: "all_four_tags ?cols \<and> list_all op_four_tags ?ops"
    by (simp add: all_four_tags_def four_tags_def)
  have ev: "track_run ?ops (DynamicTable ?cols, []) =
     (\<lparr>column_info = [(''A'', TInt), (''B'', TStr)],
       rows = [[''A'' \<mapsto> VInt 1, ''B'' \<mapsto> VNone], [''A'' \<mapsto> VInt 2, ''B'' \<mapsto> VStr ''x'']]\<rparr>,
      [{''B''}, {}])"
    by (simp add: track_run_def track.simps DynamicTable_def add_row_def add_column_def
          isinstance_def dict_zip_def column_names_def)
  have ev2: "track_run [AddRow [VInt 1, VInt 2], AddColumn ''B'' TStr, DeleteColumn ''A'']
     (DynamicTable [(''A'', TInt), (''A'', TInt)], []) =
     (\<lparr>column_info = [(''A'', TInt), (''B'', TStr)], rows = [[''B'' \<mapsto> VNone]]\<rparr>,
      [{''B''}])"
    by (simp add: track_run_def track.simps DynamicTable_def add_row_def add_column_def
          delete_column_def isinstance_def dict_zip_def column_names_def)
  show ?thesis
    using none_only_under_later_columns [of ?t ?vs 1 0 ?cols ?ops] h1 h2 ev ev2
    by (simp add: add_row_def update_row_def isinstance_def)
qed

end
